theory Spec2Isabelle
  imports Complex_Main "HOL-Library.Multiset" "HOL-Library.Stream"
begin

section \<open>Discrete particle swarm optimisation over permutations\<close>

text \<open>
  The development follows \<^verbatim>\<open>particle_swarm_optimization.py\<close> (classes
  \<^verbatim>\<open>Sequence\<close>, \<^verbatim>\<open>PermutationList\<close>, \<^verbatim>\<open>Particle\<close>,
  \<^verbatim>\<open>ParticleSwarmOptimization\<close>) and \<^verbatim>\<open>main.py\<close>
  (\<^verbatim>\<open>cost_function\<close>). Python exceptions are values of the type \<open>error\<close>;
  a method that may raise returns \<open>error + 'a\<close>.
\<close>

datatype error = TypeError | ValueError | IndexError

subsection \<open>The cost function of \<^verbatim>\<open>main.py\<close>\<close>

text \<open>
  \<^verbatim>\<open>
  def cost_function(x):
      num_invalid_restrictions = 0
      for i, Q_i in enumerate(x):
          for j, Q_j in enumerate(x):
              if i != j and abs(Q_i - Q_j) == abs(i - j):
                  num_invalid_restrictions += 1
      return num_invalid_restrictions // 2
  \<close>
  The two nested loops are two nested folds over \<open>enumerate 0 x\<close>, threading the counter.
\<close>

definition cost_inner :: "nat \<times> int \<Rightarrow> nat \<times> int \<Rightarrow> int \<Rightarrow> int" where
  "cost_inner p q num =
     (if fst p \<noteq> fst q \<and> \<bar>snd p - snd q\<bar> = \<bar>int (fst p) - int (fst q)\<bar>
      then num + 1 else num)"

definition cost_function :: "int list \<Rightarrow> int" where
  "cost_function x =
     fold (\<lambda>p num. fold (cost_inner p) (enumerate 0 x) num) (enumerate 0 x) 0 div 2"

subsection \<open>\<^verbatim>\<open>PermutationList\<close>: the velocity\<close>

text \<open>
  A \<^verbatim>\<open>PermutationList\<close> wraps an \<^verbatim>\<open>OrderedDict\<close> whose values are all
  \<^verbatim>\<open>None\<close>; what it holds is the list of its keys in insertion order, without
  repetition. A key is a pair of positions \<open>(i, j)\<close>.
\<close>

type_synonym permutation = "nat \<times> nat"
type_synonym PermutationList = "permutation list"

definition PermutationList_init :: PermutationList where
  "PermutationList_init = []"

text \<open>
  \<^verbatim>\<open>self.p_list.update({permutation: None})\<close>: a key already present keeps its
  place, a new key goes to the end.
\<close>

definition PermutationList_add :: "PermutationList \<Rightarrow> permutation \<Rightarrow> PermutationList" where
  "PermutationList_add d p = (if p \<in> set d then d else d @ [p])"

definition keys :: "PermutationList \<Rightarrow> permutation list" where
  "keys d = d"

text \<open>The Python slice \<^verbatim>\<open>xs[0:k]\<close>; a negative \<open>k\<close> counts from the end.\<close>

definition slice_to :: "'a list \<Rightarrow> int \<Rightarrow> 'a list" where
  "slice_to xs k =
     (if k < 0 then take (nat (int (length xs) + k)) xs else take (nat k) xs)"

text \<open>
  Python's \<^verbatim>\<open>round\<close> on a float rounds to the nearest integer and a tie to the even
  one. Floats are taken as the reals they denote.
\<close>

definition py_round :: "real \<Rightarrow> int" where
  "py_round r =
     (let f = \<lfloor>r\<rfloor>; d = r - of_int f
      in if d < 1 / 2 then f else if 1 / 2 < d then f + 1
         else if even f then f else f + 1)"

text \<open>
  The factor of \<^verbatim>\<open>__rmul__\<close> is tested by its exact type: \<^verbatim>\<open>int\<close>,
  \<^verbatim>\<open>float\<close>, or anything else.
  \<^verbatim>\<open>
  def __rmul__(self, n):
      if type(n) == int:
          return self.keys()[0:n]
      elif type(n) == float:
          if n < 0.0 or n > 1.0:
              raise ValueError("can't multiplie PermutationList by %.2f" % n)
          else:
              return self.keys()[0:round(n*len(self.keys()))]
      else:
          raise TypeError("TODO")
  \<close>
\<close>

datatype factor = IntFactor int | FloatFactor real | OtherFactor

fun PermutationList_rmul :: "PermutationList \<Rightarrow> factor \<Rightarrow> error + permutation list" where
  "PermutationList_rmul d (IntFactor n) = Inr (slice_to (keys d) n)"
| "PermutationList_rmul d (FloatFactor n) =
     (if n < 0 \<or> n > 1 then Inl ValueError
      else Inr (slice_to (keys d) (py_round (n * real (length (keys d))))))"
| "PermutationList_rmul d OtherFactor = Inl TypeError"

definition PermutationList_mul :: "PermutationList \<Rightarrow> factor \<Rightarrow> error + permutation list" where
  "PermutationList_mul d other = PermutationList_rmul d other"

text \<open>
  A call of \<^verbatim>\<open>__rmul__\<close> seen as a method call on the object: the outcome together
  with the object's key sequence after the call. The body reads \<^verbatim>\<open>self.p_list\<close>
  through \<^verbatim>\<open>keys()\<close>, which builds a fresh list, and has no statement that writes
  to it, on either the returning or the raising path.
\<close>

definition rmul_call ::
  "PermutationList \<Rightarrow> factor \<Rightarrow> (error + permutation list) \<times> PermutationList" where
  "rmul_call d n = (PermutationList_rmul d n, d)"

subsection \<open>\<^verbatim>\<open>Sequence\<close>: the position\<close>

text \<open>
  A \<^verbatim>\<open>Sequence\<close> holds \<^verbatim>\<open>self.list\<close>, a list of integers.
  \<^verbatim>\<open>Sequence(n)\<close> is \<^verbatim>\<open>list(range(1, n + 1))\<close> after
  \<^verbatim>\<open>random.shuffle\<close>: some arrangement of \<open>[1..n]\<close>. No method writes to the
  list of an existing object after its construction (\<^verbatim>\<open>__sub__\<close> and
  \<^verbatim>\<open>__add__\<close> work on copies), so a \<^verbatim>\<open>Sequence\<close> is its list.
\<close>

definition is_Sequence :: "int \<Rightarrow> int list \<Rightarrow> bool" where
  "is_Sequence n xs = (mset xs = mset [1..n])"

text \<open>
  \<^verbatim>\<open>
  def __add__(self, permutation_list):
      if type(permutation_list) == PermutationList:
          sum_sequence = self.__copy__()
          for permutation in permutation_list.keys():
              i, j = permutation
              aux = sum_sequence.list[j]
              sum_sequence.list[j] = sum_sequence.list[i]
              sum_sequence.list[i] = aux
          return sum_sequence
      else:
          raise TypeError(...)
  \<close>
  The argument of the model is a \<open>PermutationList\<close>, the one type the test accepts.
  \<^verbatim>\<open>__copy__\<close> builds a new object and gives it a copy of the list (the shuffle
  of its construction is overwritten). Reading \<^verbatim>\<open>list[j]\<close> or \<^verbatim>\<open>list[i]\<close> out of range raises
  \<^verbatim>\<open>IndexError\<close>; the copy is then lost and \<^verbatim>\<open>self\<close> is as before.
\<close>

fun Sequence_add :: "int list \<Rightarrow> PermutationList \<Rightarrow> error + int list" where
  "Sequence_add xs [] = Inr xs"
| "Sequence_add xs ((i, j) # ps) =
     (if length xs \<le> j \<or> length xs \<le> i then Inl IndexError
      else Sequence_add (xs[j := xs ! i, i := xs ! j]) ps)"

text \<open>
  \<^verbatim>\<open>
  def __sub__(self, other):
      v = PermutationList()
      other_list = other.list.copy()
      while self.list != other_list:
          i = random.randrange(0, len(self.list))
          if self.list[i] != other_list[i]:
              searching = self.list[i]
              for j in range(i+1, len(self.list)):
                  if other_list[j] == searching:
                      v.add((i, j))
                      other_list[j] = other_list[i]
                      other_list[i] = searching
                      break
      return v
  \<close>
  The inner \<^verbatim>\<open>for\<close> loop is \<open>search_j\<close> over \<open>[i + 1..<len(self.list)]\<close>: it
  stops at the first \<open>j\<close> that holds the searched value, ends without one, or raises
  \<^verbatim>\<open>IndexError\<close> on reading \<^verbatim>\<open>other_list[j]\<close> beyond the end of a shorter
  list.
\<close>

datatype search_result = Found nat | NotFound | Raised

fun search_j :: "int list \<Rightarrow> int \<Rightarrow> nat list \<Rightarrow> search_result" where
  "search_j other_list searching [] = NotFound"
| "search_j other_list searching (j # js) =
     (if length other_list \<le> j then Raised
      else if other_list ! j = searching then Found j
      else search_j other_list searching js)"

text \<open>
  One turn of the \<^verbatim>\<open>while\<close> body for the draw \<open>i\<close>, on the state
  \<open>(other_list, v)\<close>. A draw is a value of \<^verbatim>\<open>randrange(0, len(self.list))\<close>,
  so below \<open>len(self.list)\<close>; for any other index the model gives the
  \<^verbatim>\<open>IndexError\<close> of the list read.
\<close>

definition sub_body ::
  "int list \<Rightarrow> nat \<Rightarrow> int list \<times> PermutationList \<Rightarrow> error + int list \<times> PermutationList" where
  "sub_body a i st =
     (let other_list = fst st; v = snd st in
      if length a \<le> i \<or> length other_list \<le> i then Inl IndexError
      else if a ! i \<noteq> other_list ! i then
        (case search_j other_list (a ! i) [i + 1..<length a] of
           Found j \<Rightarrow>
             Inr (other_list[j := other_list ! i, i := a ! i], PermutationList_add v (i, j))
         | NotFound \<Rightarrow> Inr (other_list, v)
         | Raised \<Rightarrow> Inl IndexError)
      else Inr (other_list, v))"

text \<open>
  The \<^verbatim>\<open>while\<close> loop. \<open>a\<close> is \<^verbatim>\<open>self.list\<close> and \<open>rs\<close> the stream of
  the draws to come. The loop may run forever: \<open>None\<close> is the run that does not return.
  \<^verbatim>\<open>randrange(0, 0)\<close> raises \<^verbatim>\<open>ValueError\<close>.
\<close>

partial_function (option) sub_loop ::
  "int list \<Rightarrow> nat stream \<Rightarrow> int list \<times> PermutationList \<Rightarrow> (error + PermutationList) option" where
  "sub_loop a rs st =
     (if a = fst st then Some (Inr (snd st))
      else if a = [] then Some (Inl ValueError)
      else (case sub_body a (shd rs) st of
              Inl e \<Rightarrow> Some (Inl e)
            | Inr st' \<Rightarrow> sub_loop a (stl rs) st'))"

definition Sequence_sub :: "int list \<Rightarrow> int list \<Rightarrow> nat stream \<Rightarrow> (error + PermutationList) option" where
  "Sequence_sub a b rs = sub_loop a rs (b, PermutationList_init)"

text \<open>The number of positions of \<open>other_list\<close> that hold the value \<open>a\<close> holds there.\<close>

definition matching :: "int list \<Rightarrow> int list \<Rightarrow> nat" where
  "matching a other_list = length (filter (\<lambda>k. a ! k = other_list ! k) [0..<length a])"

subsection \<open>\<^verbatim>\<open>Particle\<close>\<close>

text \<open>
  Values reported by the caller are integers (\<^verbatim>\<open>:type value: int\<close>); the stored
  bests start at \<^verbatim>\<open>math.inf\<close>. \<open>value_less\<close> is Python's \<^verbatim>\<open><\<close> on them.
\<close>

datatype "value" = Val int | Infty

fun value_less :: "value \<Rightarrow> value \<Rightarrow> bool" where
  "value_less (Val a) (Val b) = (a < b)"
| "value_less (Val a) Infty = True"
| "value_less Infty b = False"

definition value_le :: "value \<Rightarrow> value \<Rightarrow> bool" where
  "value_le a b = (\<not> value_less b a)"

record Particle =
  p_x :: "int list"
  p_v :: PermutationList
  p_best :: "int list"
  p_best_value :: "value"

text \<open>
  \<^verbatim>\<open>Particle(n)\<close>, given the outcome \<open>s\<close> of \<^verbatim>\<open>Sequence(n)\<close>:
  \<^verbatim>\<open>self.x = Sequence(n); self.v = PermutationList(); self.best = self.x;
  self.best_value = inf\<close>.
\<close>

definition Particle_init :: "int list \<Rightarrow> Particle" where
  "Particle_init s =
     \<lparr>p_x = s, p_v = PermutationList_init, p_best = s, p_best_value = Infty\<rparr>"

subsection \<open>\<^verbatim>\<open>ParticleSwarmOptimization\<close>: the coordinator\<close>

record Param =
  num_particles :: int
  inertia_weight :: real
  cognitive_parameter :: real
  social_parameter :: real

text \<open>
  The fields of the coordinator, with \<open>pso_\<close> before the one-letter names. The last
  field, \<open>advances\<close>, is not in the source: it counts the calls of
  \<^verbatim>\<open>advance_generation\<close>, and no branch or other field depends on it.
\<close>

record PSO =
  pso_w :: real
  pso_phip :: real
  pso_phig :: real
  best_global :: "int list option"
  best_global_value :: "value"
  best_iteration :: "int list option"
  best_iteration_value :: "value"
  pso_n :: int
  particles :: "Particle list"
  pso_i :: nat
  advances :: nat

text \<open>
  \<^verbatim>\<open>__init__(self, hyperparams, n)\<close>. \<open>shuffled k\<close> is the outcome of the shuffle
  in the construction of particle \<open>k\<close>; \<^verbatim>\<open>range(num_particles)\<close> is empty for a
  number that is not positive.
\<close>

definition ParticleSwarmOptimization_init :: "Param \<Rightarrow> int \<Rightarrow> (nat \<Rightarrow> int list) \<Rightarrow> PSO" where
  "ParticleSwarmOptimization_init hyperparams n shuffled =
     \<lparr>pso_w = inertia_weight hyperparams,
      pso_phip = cognitive_parameter hyperparams,
      pso_phig = social_parameter hyperparams,
      best_global = None,
      best_global_value = Infty,
      best_iteration = None,
      best_iteration_value = Infty,
      pso_n = n,
      particles = map (\<lambda>k. Particle_init (shuffled k)) [0..<nat (num_particles hyperparams)],
      pso_i = 0,
      advances = 0\<rparr>"

definition get_best_position :: "PSO \<Rightarrow> int list option" where
  "get_best_position s = best_global s"

definition get_best_value :: "PSO \<Rightarrow> value" where
  "get_best_value s = best_global_value s"

text \<open>\<^verbatim>\<open>return self.particles[self.i].x\<close>; the state is only read.\<close>

definition get_position_to_evaluate :: "PSO \<Rightarrow> error + int list" where
  "get_position_to_evaluate s =
     (if length (particles s) \<le> pso_i s then Inl IndexError
      else Inr (p_x (particles s ! pso_i s)))"

text \<open>
  \<^verbatim>\<open>
  def advance_generation(self):
      for particle in self.particles:
          rp = random.uniform(0.0, 1.0)
          rg = random.uniform(0.0, 1.0)
          # TODO: change this for discrete problem
          particle.x = particle.x + particle.v
  \<close>
  The two draws are bound to local names that nothing reads, so they are left out of the
  model. An exception of \<^verbatim>\<open>__add__\<close> leaves the loop.
\<close>

fun advance_particles :: "Particle list \<Rightarrow> error + Particle list" where
  "advance_particles [] = Inr []"
| "advance_particles (particle # rest) =
     (case Sequence_add (p_x particle) (p_v particle) of
        Inl e \<Rightarrow> Inl e
      | Inr x' \<Rightarrow>
          (case advance_particles rest of
             Inl e \<Rightarrow> Inl e
           | Inr rest' \<Rightarrow> Inr (particle\<lparr>p_x := x'\<rparr> # rest')))"

definition advance_generation :: "PSO \<Rightarrow> error + PSO" where
  "advance_generation s =
     (case advance_particles (particles s) of
        Inl e \<Rightarrow> Inl e
      | Inr ps \<Rightarrow> Inr (s\<lparr>particles := ps, advances := advances s + 1\<rparr>))"

text \<open>
  \<^verbatim>\<open>
  def notify_evaluation(self, value):
      if value < self.particles[self.i].best_value:
          self.particles[self.i].best = self.particles[self.i].x
          self.particles[self.i].best_value = value
      if value < self.best_iteration_value:
          self.best_iteration = self.particles[self.i].x
          self.best_iteration_value = value

      if self.i == len(self.particles) - 1:
          self.i = 0
          if self.best_iteration_value < self.best_global_value:
              self.best_global = self.best_iteration
              self.best_global_value = self.best_iteration_value
          self.advance_generation()
      else:
          self.i += 1
  \<close>
  \<^verbatim>\<open>self.particles[self.i]\<close> raises \<^verbatim>\<open>IndexError\<close> when the cursor is
  not an index of the list (an empty swarm), before anything is written.
\<close>

definition notify_evaluation :: "value \<Rightarrow> PSO \<Rightarrow> error + PSO" where
  "notify_evaluation val s =
     (if length (particles s) \<le> pso_i s then Inl IndexError
      else
        let p = particles s ! pso_i s;
            p1 = (if value_less val (p_best_value p)
                  then p\<lparr>p_best := p_x p, p_best_value := val\<rparr> else p);
            s1 = s\<lparr>particles := (particles s)[pso_i s := p1]\<rparr>;
            s2 = (if value_less val (best_iteration_value s1)
                  then s1\<lparr>best_iteration := Some (p_x p1), best_iteration_value := val\<rparr>
                  else s1)
        in if pso_i s2 = length (particles s2) - 1 then
             (let s3 = s2\<lparr>pso_i := 0\<rparr>;
                  s4 = (if value_less (best_iteration_value s3) (best_global_value s3)
                        then s3\<lparr>best_global := best_iteration s3,
                                 best_global_value := best_iteration_value s3\<rparr>
                        else s3)
              in advance_generation s4)
           else Inr (s2\<lparr>pso_i := pso_i s2 + 1\<rparr>))"

text \<open>
  A run of the coordinator: the caller's calls in order. An exception ends the run.
\<close>

datatype call = GetPosition | Notify "value"

fun run :: "call list \<Rightarrow> PSO \<Rightarrow> error + PSO" where
  "run [] s = Inr s"
| "run (GetPosition # cs) s =
     (case get_position_to_evaluate s of Inl e \<Rightarrow> Inl e | Inr pos \<Rightarrow> run cs s)"
| "run (Notify val # cs) s =
     (case notify_evaluation val s of Inl e \<Rightarrow> Inl e | Inr s' \<Rightarrow> run cs s')"

text \<open>Concrete swarms for the examples: one particle, and two particles on two cells.\<close>

definition params :: "int \<Rightarrow> Param" where
  "params k =
     \<lparr>num_particles = k, inertia_weight = 7 / 10, cognitive_parameter = 8 / 10,
      social_parameter = 9 / 10\<rparr>"

definition swarm1 :: PSO where
  "swarm1 = ParticleSwarmOptimization_init (params 1) 2 (nth [[2, 1]])"

definition swarm2 :: PSO where
  "swarm2 = ParticleSwarmOptimization_init (params 2) 2 (nth [[1, 2], [2, 1]])"

text \<open>The one-particle swarm after \<open>g \<ge> 1\<close> rounds that each reported the value \<open>3\<close>.\<close>

definition swarm1_evaluated :: "nat \<Rightarrow> PSO" where
  "swarm1_evaluated g =
     swarm1\<lparr>best_global := Some [2, 1], best_global_value := Val 3,
            best_iteration := Some [2, 1], best_iteration_value := Val 3,
            particles := [\<lparr>p_x = [2, 1], p_v = [], p_best = [2, 1], p_best_value = Val 3\<rparr>],
            advances := g\<rparr>"

text \<open>
  The two-particle swarm after the first round with the reports \<open>7\<close> and \<open>5\<close>, and
  after the next report, \<open>3\<close>, for the first particle of the second round.
\<close>

definition swarm2_round1 :: PSO where
  "swarm2_round1 =
     swarm2\<lparr>best_global := Some [2, 1], best_global_value := Val 5,
            best_iteration := Some [2, 1], best_iteration_value := Val 5,
            particles := [\<lparr>p_x = [1, 2], p_v = [], p_best = [1, 2], p_best_value = Val 7\<rparr>,
                          \<lparr>p_x = [2, 1], p_v = [], p_best = [2, 1], p_best_value = Val 5\<rparr>],
            pso_i := 0, advances := 1\<rparr>"

definition swarm2_round2_first :: PSO where
  "swarm2_round2_first =
     swarm2_round1\<lparr>best_iteration := Some [1, 2], best_iteration_value := Val 3,
            particles := [\<lparr>p_x = [1, 2], p_v = [], p_best = [1, 2], p_best_value = Val 3\<rparr>,
                          \<lparr>p_x = [2, 1], p_v = [], p_best = [2, 1], p_best_value = Val 5\<rparr>],
            pso_i := 1\<rparr>"

subsection \<open>Auxiliary notions for the proofs\<close>

text \<open>
  \<open>still\<close>: the cursor is an index of the swarm and every velocity is empty.
  \<open>record_evaluation\<close>: the state of \<^verbatim>\<open>notify_evaluation\<close> after its first two
  \<^verbatim>\<open>if\<close> statements, before the cursor moves. \<open>pick\<close>: the value a strict
  comparison keeps. \<open>bests_le\<close>: no stored best value of the first state is above the
  one of the second.
\<close>

definition still :: "PSO \<Rightarrow> bool" where
  "still s = (pso_i s < length (particles s) \<and> (\<forall>p \<in> set (particles s). p_v p = []))"

definition record_evaluation :: "value \<Rightarrow> PSO \<Rightarrow> PSO" where
  "record_evaluation val s =
     (let p = particles s ! pso_i s;
          p1 = (if value_less val (p_best_value p)
                  then p\<lparr>p_best := p_x p, p_best_value := val\<rparr> else p);
          s1 = s\<lparr>particles := (particles s)[pso_i s := p1]\<rparr>
      in (if value_less val (best_iteration_value s1)
                  then s1\<lparr>best_iteration := Some (p_x p1), best_iteration_value := val\<rparr>
                  else s1))"

definition pick :: "value \<Rightarrow> value \<Rightarrow> value" where
  "pick val old = (if value_less val old then val else old)"

definition bests_le :: "PSO \<Rightarrow> PSO \<Rightarrow> bool" where
  "bests_le s' s =
     (value_le (best_global_value s') (best_global_value s)
      \<and> value_le (best_iteration_value s') (best_iteration_value s)
      \<and> length (particles s') = length (particles s)
      \<and> (\<forall>k < length (particles s).
            value_le (p_best_value (particles s' ! k)) (p_best_value (particles s ! k))))"

text \<open>
  \<open>fair n rs\<close>: each index below \<open>n\<close> is drawn again after every point of the stream.
  \<open>sub_inv\<close>: the invariant of the loop of \<^verbatim>\<open>__sub__\<close>: the working copy is
  an arrangement of \<open>a\<close>, it is \<open>b\<close> moved by the recorded transpositions, and the
  first position of every recorded transposition already holds its final value.
\<close>

definition fair :: "nat \<Rightarrow> nat stream \<Rightarrow> bool" where
  "fair n rs = (\<forall>i<n. \<forall>k. i \<in> sset (sdrop k rs))"

definition sub_inv :: "int list \<Rightarrow> int list \<Rightarrow> int list \<times> PermutationList \<Rightarrow> bool" where
  "sub_inv a b st =
     (length (fst st) = length a \<and> mset (fst st) = mset a
      \<and> Sequence_add b (snd st) = Inr (fst st)
      \<and> (\<forall>p \<in> set (snd st). fst p < length a \<and> a ! fst p = fst st ! fst p))"

section \<open>Properties\<close>

subsection \<open>Scaling a velocity\<close>

lemma py_round_of_int: "py_round (of_int k) = k"
  by (simp add: py_round_def)

lemma slice_to_length: "slice_to xs (int (length xs)) = xs"
  by (simp add: slice_to_def)

text \<open>
  C8. For an integer factor \<open>k\<close> with \<open>0 \<le> k \<le> len(d)\<close>, \<^verbatim>\<open>__rmul__\<close> and
  \<^verbatim>\<open>__mul__\<close> return exactly the first \<open>k\<close> transpositions of \<open>d\<close> in their order
  (so \<open>k\<close> of them); for the float factor \<open>0.0\<close> they return the empty list and for
  \<open>1.0\<close> all of \<open>d\<close> in order.
\<close>

theorem rmul_prefix:
  "(0 \<le> k \<and> k \<le> int (length d) \<longrightarrow>
      PermutationList_rmul d (IntFactor k) = Inr (take (nat k) d) \<and>
      PermutationList_mul d (IntFactor k) = Inr (take (nat k) d) \<and>
      length (take (nat k) d) = nat k)
   \<and> PermutationList_rmul d (FloatFactor 0) = Inr []
   \<and> PermutationList_mul d (FloatFactor 0) = Inr []
   \<and> PermutationList_rmul d (FloatFactor 1) = Inr d
   \<and> PermutationList_mul d (FloatFactor 1) = Inr d"
proof -
  have zero: "py_round (0 * real (length d)) = 0"
    by (simp add: py_round_def)
  have "py_round (1 * real (length d)) = int (length d)"
    using py_round_of_int [of "int (length d)"] by simp
  then have one: "slice_to d (py_round (1 * real (length d))) = d"
    by (simp add: slice_to_length)
  have int_part: "PermutationList_rmul d (IntFactor k) = Inr (take (nat k) d)
      \<and> length (take (nat k) d) = nat k"
    if "0 \<le> k" and "k \<le> int (length d)"
    using that by (auto simp add: keys_def slice_to_def min_def)
  have "PermutationList_rmul d (FloatFactor 0) = Inr []"
    using zero by (simp add: keys_def slice_to_def)
  moreover have "PermutationList_rmul d (FloatFactor 1) = Inr d"
    using one by (simp add: keys_def)
  ultimately show ?thesis
    using int_part unfolding PermutationList_mul_def by blast
qed

theorem rmul_prefix_witness:
  "PermutationList_rmul [(0, 2), (1, 3), (2, 3)] (IntFactor 2) = Inr [(0, 2), (1, 3)]
   \<and> PermutationList_mul [(0, 2), (1, 3), (2, 3)] (IntFactor 2) = Inr [(0, 2), (1, 3)]"
  using rmul_prefix [of 2 "[(0, 2), (1, 3), (2, 3)]"] by simp

text \<open>
  C9. A float factor below \<open>0.0\<close> or above \<open>1.0\<close> makes \<^verbatim>\<open>__rmul__\<close> (and
  \<^verbatim>\<open>__mul__\<close>) raise \<^verbatim>\<open>ValueError\<close>: there is no clamping, and the
  object's key sequence after the failed call is the one before it.
\<close>

theorem rmul_out_of_range:
  "r < 0 \<or> 1 < r \<Longrightarrow>
     rmul_call d (FloatFactor r) = (Inl ValueError, d)
     \<and> PermutationList_mul d (FloatFactor r) = Inl ValueError"
  by (auto simp add: rmul_call_def PermutationList_mul_def)

theorem rmul_out_of_range_witness:
  "rmul_call [(0, 1), (1, 2)] (FloatFactor (3 / 2)) = (Inl ValueError, [(0, 1), (1, 2)])
   \<and> rmul_call [(0, 1), (1, 2)] (FloatFactor (- 1 / 4)) = (Inl ValueError, [(0, 1), (1, 2)])"
  using rmul_out_of_range [of "3 / 2" "[(0, 1), (1, 2)]"]
    rmul_out_of_range [of "- 1 / 4" "[(0, 1), (1, 2)]"]
  by simp

subsection \<open>The cost function on the two reference boards\<close>

text \<open>
  C10 as stated: the cost of \<open>[1,2,3,4]\<close> is \<open>3\<close>. It is not: all six pairs of that
  board lie on the main diagonal, and the function returns \<open>6\<close>.
\<close>

theorem cost_function_1234_not_3: "cost_function [1, 2, 3, 4] \<noteq> 3"
  by (simp add: cost_function_def cost_inner_def enumerate_eq_zip upt_conv_Cons)

text \<open>
  C10, amended. The cost function counts the unordered pairs \<open>i \<noteq> j\<close> with
  \<open>|Q_i - Q_j| = |i - j|\<close>; it returns \<open>6\<close> for \<open>[1,2,3,4]\<close> and \<open>0\<close> for
  \<open>[2,4,1,3]\<close>.
\<close>

theorem cost_function_reference:
  "cost_function [1, 2, 3, 4] = 6 \<and> cost_function [2, 4, 1, 3] = 0"
  by (simp add: cost_function_def cost_inner_def enumerate_eq_zip upt_conv_Cons)

subsection \<open>Difference and application of permutations\<close>

lemma search_j_Found:
  "search_j w s js = Found j \<Longrightarrow> j \<in> set js \<and> j < length w \<and> w ! j = s"
  by (induction js) (auto split: if_splits)

lemma search_j_NotFound:
  "search_j w s js = NotFound \<Longrightarrow> \<forall>j \<in> set js. w ! j \<noteq> s"
  by (induction js) (auto split: if_splits)

lemma search_j_Raised:
  "search_j w s js = Raised \<Longrightarrow> \<exists>j \<in> set js. length w \<le> j"
  by (induction js) (auto split: if_splits)

lemma Sequence_add_append:
  "Sequence_add xs (ps @ qs) =
     (case Sequence_add xs ps of Inl e \<Rightarrow> Inl e | Inr ys \<Rightarrow> Sequence_add ys qs)"
  by (induction xs ps rule: Sequence_add.induct) auto

lemma matching_card:
  "matching a w = card {k. k < length a \<and> a ! k = w ! k}"
proof -
  have "distinct (filter (\<lambda>k. a ! k = w ! k) [0..<length a])" by simp
  then have "length (filter (\<lambda>k. a ! k = w ! k) [0..<length a])
      = card (set (filter (\<lambda>k. a ! k = w ! k) [0..<length a]))"
    by (simp only: distinct_card)
  also have "set (filter (\<lambda>k. a ! k = w ! k) [0..<length a])
      = {k. k < length a \<and> a ! k = w ! k}" by auto
  finally show ?thesis by (simp add: matching_def)
qed

lemma matching_le: "matching a w \<le> length a"
  unfolding matching_def by (metis length_filter_le length_upt diff_zero)

lemma swap_matching:
  assumes "distinct a" and "i < length w" and "j < length w" and "i < j" and "j < length a"
    and "a ! i \<noteq> w ! i" and "w ! j = a ! i"
  shows "matching a w < matching a (w[j := w ! i, i := a ! i])"
proof -
  let ?w' = "w[j := w ! i, i := a ! i]"
  have ij: "a ! j \<noteq> a ! i"
    using assms(1,4,5) by (simp add: nth_eq_iff_index_eq)
  have sub: "{k. k < length a \<and> a ! k = w ! k} \<subseteq> {k. k < length a \<and> a ! k = ?w' ! k}"
  proof
    fix k assume "k \<in> {k. k < length a \<and> a ! k = w ! k}"
    then have k: "k < length a" "a ! k = w ! k" by auto
    then have "k \<noteq> i" "k \<noteq> j" using assms(6,7) ij by auto
    then have "?w' ! k = w ! k" by simp
    then show "k \<in> {k. k < length a \<and> a ! k = ?w' ! k}" using k by simp
  qed
  have "i \<in> {k. k < length a \<and> a ! k = ?w' ! k}"
    using assms(2,4,5) by simp
  moreover have "i \<notin> {k. k < length a \<and> a ! k = w ! k}"
    using assms(6) by simp
  ultimately have "{k. k < length a \<and> a ! k = w ! k}
      \<subset> {k. k < length a \<and> a ! k = ?w' ! k}"
    using sub by blast
  then show ?thesis
    unfolding matching_card by (intro psubset_card_mono) auto
qed

lemma sub_body_cases:
  assumes "sub_body a i st = Inr st'"
  shows "st' = st \<or>
     (\<exists>j. i < j \<and> j < length a \<and> j < length (fst st) \<and> i < length (fst st)
         \<and> a ! i \<noteq> fst st ! i \<and> fst st ! j = a ! i
         \<and> st' = ((fst st)[j := fst st ! i, i := a ! i], PermutationList_add (snd st) (i, j)))"
proof -
  have "\<exists>j. i < j \<and> j < length a \<and> j < length (fst st) \<and> fst st ! j = a ! i
         \<and> search_j (fst st) (a ! i) [i + 1..<length a] = Found j"
    if "search_j (fst st) (a ! i) [i + 1..<length a] = Found j" for j
    using search_j_Found[OF that] that by auto
  then show ?thesis
    using assms
    by (auto simp add: sub_body_def Let_def split: if_splits search_result.splits)
qed

lemma sub_body_progress:
  assumes "distinct a" and "sub_body a i st = Inr st'" and "fst st' \<noteq> fst st"
  shows "matching a (fst st) < matching a (fst st')"
proof -
  from sub_body_cases[OF assms(2)] assms(3)
  obtain j where j: "i < j" "j < length a" "j < length (fst st)" "i < length (fst st)"
      "a ! i \<noteq> fst st ! i" "fst st ! j = a ! i"
      "st' = ((fst st)[j := fst st ! i, i := a ! i], PermutationList_add (snd st) (i, j))"
    by auto
  show ?thesis
    using swap_matching[OF assms(1) j(4) j(3) j(1) j(2) j(5) j(6)] j(7) by simp
qed

lemma sub_body_inv:
  assumes "distinct a" and "sub_inv a b st" and "sub_body a i st = Inr st'"
  shows "sub_inv a b st'"
proof -
  from sub_body_cases[OF assms(3)] show ?thesis
  proof
    assume "st' = st" then show ?thesis using assms(2) by simp
  next
    assume "\<exists>j. i < j \<and> j < length a \<and> j < length (fst st) \<and> i < length (fst st)
         \<and> a ! i \<noteq> fst st ! i \<and> fst st ! j = a ! i
         \<and> st' = ((fst st)[j := fst st ! i, i := a ! i], PermutationList_add (snd st) (i, j))"
    then obtain j where j: "i < j" "j < length a" "j < length (fst st)" "i < length (fst st)"
      "a ! i \<noteq> fst st ! i" "fst st ! j = a ! i"
      "st' = ((fst st)[j := fst st ! i, i := a ! i], PermutationList_add (snd st) (i, j))"
      by auto
    let ?w = "fst st" and ?v = "snd st"
    let ?w' = "?w[j := ?w ! i, i := a ! i]"
    have inv: "length ?w = length a" "mset ?w = mset a" "Sequence_add b ?v = Inr ?w"
      "\<forall>p \<in> set ?v. fst p < length a \<and> a ! fst p = ?w ! fst p"
      using assms(2) by (simp_all add: sub_inv_def)
    have new: "(i, j) \<notin> set ?v" using inv(4) j(5) by auto
    then have v': "PermutationList_add ?v (i, j) = ?v @ [(i, j)]"
      by (simp add: PermutationList_add_def)
    have w': "?w' = ?w[j := ?w ! i, i := ?w ! j]" using j(6) by simp
    have "mset ?w' = mset ?w" unfolding w' by (rule mset_swap[OF j(4) j(3)])
    then have m: "mset ?w' = mset a" using inv(2) by simp
    have add: "Sequence_add b (?v @ [(i, j)]) = Inr ?w'"
      using inv(3) j(3,4) by (simp add: Sequence_add_append w')
    have ij: "a ! j \<noteq> a ! i"
      using assms(1) j(1,2) by (simp add: nth_eq_iff_index_eq)
    have keep: "fst p < length a \<and> a ! fst p = ?w' ! fst p" if "p \<in> set (?v @ [(i, j)])" for p
    proof (cases "p = (i, j)")
      case True
      then show ?thesis using j(1,2,4) by simp
    next
      case False
      then have p: "fst p < length a" "a ! fst p = ?w ! fst p" using that inv(4) by auto
      then have "fst p \<noteq> i" "fst p \<noteq> j" using j(5,6) ij by auto
      then show ?thesis using p by simp
    qed
    show ?thesis
      unfolding sub_inv_def j(7) v' using inv(1) m add keep by simp
  qed
qed

lemma sub_body_total:
  assumes "sub_inv a b st" and "i < length a"
  shows "\<exists>st'. sub_body a i st = Inr st'"
proof -
  have len: "length (fst st) = length a" using assms(1) by (simp add: sub_inv_def)
  have "search_j (fst st) (a ! i) [i + 1..<length a] \<noteq> Raised"
    using search_j_Raised[of "fst st" "a ! i" "[i + 1..<length a]"] len by auto
  then show ?thesis
    using assms(2) len
    by (auto simp add: sub_body_def Let_def split: search_result.splits)
qed

lemma productive_index:
  assumes "distinct a" and "sub_inv a b st" and "a \<noteq> fst st"
  shows "\<exists>i < length a. \<exists>st'. sub_body a i st = Inr st' \<and> fst st' \<noteq> fst st"
proof -
  let ?w = "fst st"
  have len: "length ?w = length a" and ms: "mset ?w = mset a"
    using assms(2) by (simp_all add: sub_inv_def)
  have "\<exists>k. k < length a \<and> a ! k \<noteq> ?w ! k"
    using assms(3) len by (auto simp add: list_eq_iff_nth_eq)
  then obtain i where i: "i < length a" "a ! i \<noteq> ?w ! i"
    and least: "\<forall>k < i. \<not> (k < length a \<and> a ! k \<noteq> ?w ! k)"
    using exists_least_iff[of "\<lambda>k. k < length a \<and> a ! k \<noteq> ?w ! k"] by auto
  have "a ! i \<in> set ?w" using i(1) ms by (metis nth_mem set_mset_mset)
  then obtain k where k: "k < length ?w" "?w ! k = a ! i"
    by (auto simp add: in_set_conv_nth)
  have "k \<noteq> i" using k(2) i(2) by auto
  moreover have "\<not> k < i"
  proof
    assume "k < i"
    then have "a ! k = ?w ! k" using least i(1) by auto
    then have "a ! k = a ! i" using k(2) by simp
    then show False using assms(1) \<open>k < i\<close> i(1) by (simp add: nth_eq_iff_index_eq)
  qed
  ultimately have "k \<in> set [i + 1..<length a]" using k(1) len by auto
  then have nf: "search_j ?w (a ! i) [i + 1..<length a] \<noteq> NotFound"
    using search_j_NotFound[of ?w "a ! i" "[i + 1..<length a]"] k(2) by auto
  have nr: "search_j ?w (a ! i) [i + 1..<length a] \<noteq> Raised"
    using search_j_Raised[of ?w "a ! i" "[i + 1..<length a]"] len by auto
  obtain j where j: "search_j ?w (a ! i) [i + 1..<length a] = Found j"
    using nf nr by (cases "search_j ?w (a ! i) [i + 1..<length a]") auto
  have neq: "?w[j := ?w ! i, i := a ! i] \<noteq> ?w"
    using i len by (metis nth_list_update_eq length_list_update)
  have "sub_body a i st
      = Inr (?w[j := ?w ! i, i := a ! i], PermutationList_add (snd st) (i, j))"
    using i len j by (simp add: sub_body_def Let_def)
  then show ?thesis
    using i(1) neq by (metis fst_conv)
qed

lemma sub_inv_nonempty:
  assumes "sub_inv a b st" and "a \<noteq> fst st"
  shows "a \<noteq> []"
  using assms by (auto simp add: sub_inv_def)

lemma sub_loop_returns_correct:
  assumes "sub_loop a rs st = Some y"
  shows "distinct a \<and> sub_inv a b st \<longrightarrow>
     (\<forall>d. y = Inr d \<longrightarrow> Sequence_add b d = Inr a)
     \<and> ((\<forall>i \<in> sset rs. i < length a) \<longrightarrow> (\<exists>d. y = Inr d))"
  using assms
proof (induction rule: sub_loop.raw_induct[rotated 1, consumes 1, case_names step])
  case (step f a rs st y)
  show ?case
  proof (intro impI, elim conjE)
    assume d: "distinct a" and inv: "sub_inv a b st"
    show "(\<forall>d. y = Inr d \<longrightarrow> Sequence_add b d = Inr a)
       \<and> ((\<forall>i \<in> sset rs. i < length a) \<longrightarrow> (\<exists>d. y = Inr d))"
    proof (cases "a = fst st")
      case True
      then have "y = Inr (snd st)" using step(2) by simp
      then show ?thesis using inv True by (simp add: sub_inv_def)
    next
      case False
      note ne = sub_inv_nonempty[OF inv False]
      show ?thesis
      proof (cases "sub_body a (shd rs) st")
        case (Inl e)
        then have y: "y = Inl e" using step(2) False ne by simp
        have "\<not> shd rs < length a"
          using sub_body_total[OF inv, of "shd rs"] Inl by auto
        then have "\<not> (\<forall>i \<in> sset rs. i < length a)"
          using shd_sset[of rs] by blast
        then show ?thesis using y by simp
      next
        case (Inr st')
        then have f: "f a (stl rs) st' = Some y" using step(2) False ne by simp
        have inv': "sub_inv a b st'" using sub_body_inv[OF d inv Inr] .
        have "(\<forall>i \<in> sset rs. i < length a) \<longrightarrow> (\<forall>i \<in> sset (stl rs). i < length a)"
          using stl_sset[of _ rs] by blast
        moreover have "(\<forall>d. y = Inr d \<longrightarrow> Sequence_add b d = Inr a)
            \<and> ((\<forall>i \<in> sset (stl rs). i < length a) \<longrightarrow> (\<exists>d. y = Inr d))"
          using step(1)[OF f] d inv' by simp
        ultimately show ?thesis by auto
      qed
    qed
  qed
qed

lemma fair_stl: "fair n rs \<Longrightarrow> fair n (stl rs)"
  unfolding fair_def
proof (intro allI impI)
  fix i k assume a: "\<forall>i<n. \<forall>k. i \<in> sset (sdrop k rs)" and "i < n"
  then have "i \<in> sset (sdrop (Suc k) rs)" by blast
  then show "i \<in> sset (sdrop k (stl rs))" by simp
qed

lemma fair_occurs: "fair n rs \<Longrightarrow> i < n \<Longrightarrow> \<exists>m. rs !! m = i"
proof -
  assume "fair n rs" and "i < n"
  then have "i \<in> sset (sdrop 0 rs)" unfolding fair_def by blast
  then show ?thesis by (auto simp add: sset_range)
qed

lemma sub_loop_step:
  assumes "a \<noteq> fst st" and "a \<noteq> []" and "sub_body a (shd rs) st = Inr st'"
  shows "sub_loop a rs st = sub_loop a (stl rs) st'"
  using assms by (subst sub_loop.simps) simp

lemma sub_loop_terminates:
  assumes "distinct a" and "fair (length a) rs" and "\<forall>i \<in> sset rs. i < length a"
    and "sub_inv a b st"
  shows "\<exists>d. sub_loop a rs st = Some (Inr d)"
  using assms(2,3,4)
proof (induction "length a - matching a (fst st)" arbitrary: st rs rule: less_induct)
  case less
  show ?case
  proof (cases "a = fst st")
    case True
    then show ?thesis by (subst sub_loop.simps) simp
  next
    case False
    note ne = sub_inv_nonempty[OF less.prems(3) False]
    obtain i0 st0 where i0: "i0 < length a" "sub_body a i0 st = Inr st0" "fst st0 \<noteq> fst st"
      using productive_index[OF assms(1) less.prems(3) False] by blast
    obtain m where m: "rs !! m = i0" using fair_occurs[OF less.prems(1) i0(1)] by blast
    have "fair (length a) rs \<Longrightarrow> \<forall>i \<in> sset rs. i < length a \<Longrightarrow> rs !! m = i0
        \<Longrightarrow> \<exists>d. sub_loop a rs st = Some (Inr d)" for rs
    proof (induction m arbitrary: rs)
      case 0
      then have "shd rs = i0" by simp
      then have step: "sub_loop a rs st = sub_loop a (stl rs) st0"
        using sub_loop_step[OF False ne] i0(2) by simp
      have "matching a (fst st) < matching a (fst st0)"
        using sub_body_progress[OF assms(1) i0(2) i0(3)] .
      then have dec: "length a - matching a (fst st0) < length a - matching a (fst st)"
        using matching_le[of a "fst st0"] by simp
      have "\<forall>i \<in> sset (stl rs). i < length a" using 0(2) stl_sset[of _ rs] by blast
      from less.hyps[OF dec fair_stl[OF 0(1)] this
          sub_body_inv[OF assms(1) less.prems(3) i0(2)]]
      show ?case unfolding step .
    next
      case (Suc m)
      have r: "shd rs < length a" using Suc.prems(2) shd_sset[of rs] by blast
      obtain st' where st': "sub_body a (shd rs) st = Inr st'"
        using sub_body_total[OF less.prems(3) r] by blast
      have step: "sub_loop a rs st = sub_loop a (stl rs) st'"
        using sub_loop_step[OF False ne st'] .
      have rng: "\<forall>i \<in> sset (stl rs). i < length a"
        using Suc.prems(2) stl_sset[of _ rs] by blast
      show ?case
      proof (cases "fst st' = fst st")
        case True
        then have "st' = st"
          using sub_body_cases[OF st']
          by (metis fst_conv nth_list_update_eq length_list_update)
        moreover have "stl rs !! m = i0" using Suc.prems(3) by simp
        ultimately show ?thesis
          using Suc.IH[OF fair_stl[OF Suc.prems(1)] rng] step by simp
      next
        case diff: False
        have "matching a (fst st) < matching a (fst st')"
          using sub_body_progress[OF assms(1) st' diff] .
        then have dec: "length a - matching a (fst st') < length a - matching a (fst st)"
          using matching_le[of a "fst st'"] by simp
        from less.hyps[OF dec fair_stl[OF Suc.prems(1)] rng
            sub_body_inv[OF assms(1) less.prems(3) st']]
        show ?thesis unfolding step .
      qed
    qed
    from this[OF less.prems(1,2) m] show ?thesis .
  qed
qed

lemma sub_inv_init:
  "mset b = mset a \<Longrightarrow> sub_inv a b (b, PermutationList_init)"
  by (auto simp add: sub_inv_def PermutationList_init_def dest: mset_eq_length)

lemma is_Sequence_distinct: "is_Sequence n a \<Longrightarrow> distinct a"
  unfolding is_Sequence_def using mset_eq_imp_distinct_iff[of a "[1..n]"] by simp

lemma difference_general:
  assumes "distinct a" and "mset b = mset a"
  shows "(\<forall>d. Sequence_sub a b rs = Some (Inr d) \<longrightarrow> Sequence_add b d = Inr a)
     \<and> ((\<forall>i \<in> sset rs. i < length a) \<longrightarrow> (\<forall>e. Sequence_sub a b rs \<noteq> Some (Inl e)))
     \<and> ((\<forall>i \<in> sset rs. i < length a) \<and> fair (length a) rs \<longrightarrow>
            (\<exists>d. Sequence_sub a b rs = Some (Inr d)))"
proof -
  note inv = sub_inv_init[OF assms(2)]
  have "Sequence_add b d = Inr a" if "Sequence_sub a b rs = Some (Inr d)" for d
    using sub_loop_returns_correct[OF that[unfolded Sequence_sub_def], of b] assms(1) inv
    by simp
  moreover have "Sequence_sub a b rs \<noteq> Some (Inl e)"
    if r: "\<forall>i \<in> sset rs. i < length a" for e
  proof
    assume "Sequence_sub a b rs = Some (Inl e)"
    from sub_loop_returns_correct[OF this[unfolded Sequence_sub_def], of b] assms(1) inv r
    show False by simp
  qed
  moreover have "\<exists>d. Sequence_sub a b rs = Some (Inr d)"
    if "\<forall>i \<in> sset rs. i < length a" and "fair (length a) rs"
    unfolding Sequence_sub_def using sub_loop_terminates[OF assms(1) that(2) that(1) inv] .
  ultimately show ?thesis by blast
qed

lemma fair_cycle:
  assumes "xs \<noteq> []" and "{..<n} \<subseteq> set xs"
  shows "fair n (cycle xs)"
  unfolding fair_def
proof (intro allI impI)
  fix i k assume "i < n"
  have "sset (sdrop k (cycle xs)) = set xs"
    using assms(1) by (simp add: sdrop_cycle)
  then show "i \<in> sset (sdrop k (cycle xs))" using assms(2) \<open>i < n\<close> by auto
qed

lemma stuck_loop:
  "sub_loop a rs st = Some y \<Longrightarrow>
     \<not> (a = [1, 2] \<and> rs = sconst 1 \<and> st = ([2, 1], []))"
proof (induction rule: sub_loop.raw_induct[rotated 1, consumes 1, case_names step])
  case (step f a rs st y)
  show ?case
  proof
    assume e: "a = [1, 2] \<and> rs = sconst 1 \<and> st = ([2, 1], [])"
    then have "sub_body a (shd rs) st = Inr st"
      by (simp add: sub_body_def)
    then have "f a (stl rs) st = Some y" using step(2) e by simp
    then have "f a rs st = Some y" using e by simp
    from step(1)[OF this] e show False by blast
  qed
qed

lemma difference_example:
  "Sequence_sub [1, 2, 3] [3, 1, 2] (cycle [2, 1, 0]) = Some (Inr [(1, 2), (0, 2)])
   \<and> Sequence_add [3, 1, 2] [(1, 2), (0, 2)] = Inr [1, 2, 3]"
  by (simp add: Sequence_sub_def sub_loop.simps sub_body_def PermutationList_add_def
      PermutationList_init_def upt_conv_Cons)

text \<open>
  C1 as stated: for every choice sequence the loop of \<^verbatim>\<open>__sub__\<close> terminates.
  It does not: for \<open>a = [1,2]\<close>, \<open>b = [2,1]\<close> and the draws \<open>1, 1, 1, \<dots>\<close> the
  position drawn never matches and its value lies to the left, so no swap is ever
  recorded and the call does not return.
\<close>

theorem difference_may_not_return:
  "Sequence_sub [1, 2] [2, 1] (sconst 1) = None"
proof (cases "Sequence_sub [1, 2] [2, 1] (sconst 1)")
  case None
  then show ?thesis .
next
  case (Some y)
  then have "sub_loop [1, 2] (sconst 1) ([2, 1], []) = Some y"
    by (simp add: Sequence_sub_def PermutationList_init_def)
  from stuck_loop[OF this] show ?thesis by simp
qed

text \<open>
  C1, amended. Let \<open>a\<close> and \<open>b\<close> be permutation states of the same length \<open>n\<close>
  (arrangements of \<open>1..n\<close>). For every choice sequence on which
  \<^verbatim>\<open>a.__sub__(b)\<close> returns, applying the returned delta to \<open>b\<close> by
  \<^verbatim>\<open>__add__\<close>, transposition by transposition in recorded order, gives \<open>a\<close>;
  with draws below \<open>n\<close> the call raises nothing. Every turn of the loop that records a swap strictly increases the number of positions
  of the working copy that match \<open>a\<close>. The call returns for every choice sequence of
  indices below \<open>n\<close> in which each index is drawn again and again.
\<close>

theorem difference_then_apply:
  assumes "is_Sequence n a" and "is_Sequence n b"
  shows "(\<forall>d. Sequence_sub a b rs = Some (Inr d) \<longrightarrow> Sequence_add b d = Inr a)
     \<and> ((\<forall>i \<in> sset rs. i < length a) \<longrightarrow> (\<forall>e. Sequence_sub a b rs \<noteq> Some (Inl e)))
     \<and> (\<forall>i st st'. length (fst st) = length a \<and> sub_body a i st = Inr st'
              \<and> fst st' \<noteq> fst st \<longrightarrow>
            matching a (fst st) < matching a (fst st'))
     \<and> ((\<forall>i \<in> sset rs. i < length a) \<and> fair (length a) rs \<longrightarrow>
            (\<exists>d. Sequence_sub a b rs = Some (Inr d)))"
proof -
  have d: "distinct a" using is_Sequence_distinct[OF assms(1)] .
  have m: "mset b = mset a" using assms by (simp add: is_Sequence_def)
  have "matching a (fst st) < matching a (fst st')"
    if "sub_body a i st = Inr st'" and "fst st' \<noteq> fst st" for i st st'
    using sub_body_progress[OF d that] .
  then show ?thesis using difference_general[OF d m, of rs] by blast
qed

theorem difference_then_apply_witness:
  "\<exists>d. Sequence_sub [1, 2, 3] [3, 1, 2] (cycle [2, 1, 0]) = Some (Inr d)
      \<and> Sequence_add [3, 1, 2] d = Inr [1, 2, 3]"
proof -
  have f: "fair (length [1, 2, 3 :: int]) (cycle [2, 1, 0])"
    by (rule fair_cycle) auto
  have s: "is_Sequence 3 [1, 2, 3]" "is_Sequence 3 [3, 1, 2]"
    by (simp_all add: is_Sequence_def upto.simps)
  show ?thesis
    using difference_then_apply [OF s, of "cycle [2, 1, 0]"] f
    by auto
qed

subsection \<open>The coordinator: states with empty velocities\<close>

lemmas run_eval = swarm1_def swarm2_def params_def ParticleSwarmOptimization_init_def
  Particle_init_def PermutationList_init_def notify_evaluation_def advance_generation_def
  get_position_to_evaluate_def Let_def upt_conv_Cons

lemma advance_particles_still:
  "\<forall>p \<in> set ps. p_v p = [] \<Longrightarrow> advance_particles ps = Inr ps"
  by (induction ps) auto

lemma record_particles:
  "pso_i s < length (particles s) \<Longrightarrow>
   map p_x (particles (record_evaluation val s)) = map p_x (particles s) \<and>
   map p_v (particles (record_evaluation val s)) = map p_v (particles s) \<and>
   pso_i (record_evaluation val s) = pso_i s \<and>
   advances (record_evaluation val s) = advances s \<and>
   best_global (record_evaluation val s) = best_global s \<and>
   best_global_value (record_evaluation val s) = best_global_value s"
  by (simp add: record_evaluation_def Let_def map_update list_update_same_conv)

lemma still_map: "(\<forall>p \<in> set ps. p_v p = []) = (map p_v ps = replicate (length ps) [])"
  by (induction ps) auto

lemma notify_still_eq:
  assumes "still s"
  shows "notify_evaluation val s =
     Inr (if pso_i s = length (particles s) - 1 then
          (let s3 = (record_evaluation val s)\<lparr>pso_i := 0\<rparr>;
               s4 = (if value_less (best_iteration_value s3) (best_global_value s3)
                        then s3\<lparr>best_global := best_iteration s3,
                                 best_global_value := best_iteration_value s3\<rparr>
                        else s3)
           in s4\<lparr>advances := advances s4 + 1\<rparr>)
          else (record_evaluation val s)\<lparr>pso_i := pso_i s + 1\<rparr>)"
proof -
  have i: "pso_i s < length (particles s)" using assms by (simp add: still_def)
  have v: "map p_v (particles (record_evaluation val s)) = replicate (length (particles s)) []"
    using assms record_particles[OF i, of val] by (simp add: still_def still_map)
  have len: "length (particles (record_evaluation val s)) = length (particles s)"
    using record_particles[OF i, of val] by (metis length_map)
  have "\<forall>p \<in> set (particles (record_evaluation val s)). p_v p = []"
    using v len by (simp add: still_map)
  then have adv: "advance_particles (particles (record_evaluation val s))
      = Inr (particles (record_evaluation val s))"
    by (rule advance_particles_still)
  have ri: "pso_i (record_evaluation val s) = pso_i s"
    using record_particles[OF i, of val] by simp
  show ?thesis
    using i adv len ri
    unfolding notify_evaluation_def record_evaluation_def[symmetric, unfolded Let_def] Let_def
    by (simp add: advance_generation_def Let_def)
qed

lemma still_init:
  "0 < num_particles hp \<Longrightarrow> still (ParticleSwarmOptimization_init hp n sh)"
  by (simp add: still_def ParticleSwarmOptimization_init_def Particle_init_def
      PermutationList_init_def)

lemma notify_still:
  assumes "still s"
  shows "\<exists>s'. notify_evaluation val s = Inr s' \<and> still s'
            \<and> map p_x (particles s') = map p_x (particles s)"
proof -
  have i: "pso_i s < length (particles s)" using assms by (simp add: still_def)
  note r = record_particles[OF i, of val]
  have len: "length (particles (record_evaluation val s)) = length (particles s)"
    using r by (metis length_map)
  have v: "\<forall>p \<in> set (particles (record_evaluation val s)). p_v p = []"
    using assms r len by (simp add: still_def still_map)
  show ?thesis
    using i r len v
    by (auto simp add: notify_still_eq[OF assms] still_def Let_def)
qed

lemma run_still:
  "still s \<Longrightarrow> \<exists>s'. run cs s = Inr s' \<and> still s'
      \<and> map p_x (particles s') = map p_x (particles s)"
proof (induction cs arbitrary: s)
  case Nil
  then show ?case by simp
next
  case (Cons c cs)
  show ?case
  proof (cases c)
    case GetPosition
    have "get_position_to_evaluate s = Inr (p_x (particles s ! pso_i s))"
      using Cons.prems by (simp add: get_position_to_evaluate_def still_def)
    then show ?thesis using GetPosition Cons.IH[OF Cons.prems] by simp
  next
    case (Notify val)
    obtain s1 where s1: "notify_evaluation val s = Inr s1" "still s1"
      "map p_x (particles s1) = map p_x (particles s)"
      using notify_still[OF Cons.prems] by blast
    show ?thesis using Notify s1 Cons.IH[OF s1(2)] by simp
  qed
qed

lemma run_empty_swarm:
  "particles s = [] \<Longrightarrow> run cs s = Inr s' \<Longrightarrow> s' = s"
proof (cases cs)
  case Nil
  then show "particles s = [] \<Longrightarrow> run cs s = Inr s' \<Longrightarrow> s' = s" by simp
next
  case (Cons c cs')
  then show "particles s = [] \<Longrightarrow> run cs s = Inr s' \<Longrightarrow> s' = s"
    by (cases c) (simp_all add: get_position_to_evaluate_def notify_evaluation_def)
qed

text \<open>
  C2. From a freshly constructed coordinator, whatever the hyperparameters, the shuffles and
  the sequence of \<^verbatim>\<open>get_position_to_evaluate\<close> and
  \<^verbatim>\<open>notify_evaluation\<close> calls: in every state the run reaches, each particle's
  velocity is the empty \<^verbatim>\<open>PermutationList\<close> and the positions are the initial
  shuffles, element for element (so also after every generation advance). With at least
  one particle no call raises; with none, every call raises and the state stays the
  initial one.
\<close>

theorem velocity_stays_empty:
  "(0 < num_particles hp \<longrightarrow> (\<exists>s. run cs (ParticleSwarmOptimization_init hp n sh) = Inr s))
   \<and> (\<forall>s. run cs (ParticleSwarmOptimization_init hp n sh) = Inr s \<longrightarrow>
         (\<forall>p \<in> set (particles s). p_v p = PermutationList_init) \<and>
         map p_x (particles s) = map sh [0..<nat (num_particles hp)])"
proof (cases "0 < num_particles hp")
  case True
  let ?s0 = "ParticleSwarmOptimization_init hp n sh"
  obtain s' where s': "run cs ?s0 = Inr s'" "still s'"
      "map p_x (particles s') = map p_x (particles ?s0)"
    using run_still[OF still_init[OF True]] by blast
  have "map p_x (particles ?s0) = map sh [0..<nat (num_particles hp)]"
    by (simp add: ParticleSwarmOptimization_init_def Particle_init_def comp_def)
  then show ?thesis using s' by (simp add: still_def PermutationList_init_def)
next
  case False
  let ?s0 = "ParticleSwarmOptimization_init hp n sh"
  have e: "particles ?s0 = []" using False
    by (simp add: ParticleSwarmOptimization_init_def)
  have "s = ?s0" if "run cs ?s0 = Inr s" for s
    using run_empty_swarm[OF e that] .
  then show ?thesis using e False by auto
qed

theorem velocity_stays_empty_witness:
  "\<exists>s. run [Notify (Val 5), GetPosition, Notify (Val 7), GetPosition] swarm2 = Inr s
      \<and> map p_v (particles s) = [[], []] \<and> map p_x (particles s) = [[1, 2], [2, 1]]"
  using velocity_stays_empty [of "params 2"
      "[Notify (Val 5), GetPosition, Notify (Val 7), GetPosition]" 2 "nth [[1, 2], [2, 1]]"]
  by (simp add: run_eval)

subsection \<open>The cursor and the generation advances\<close>

lemma notify_cursor:
  assumes "still s"
  shows "\<exists>s'. notify_evaluation val s = Inr s' \<and> still s'
            \<and> length (particles s') = length (particles s)
            \<and> (if pso_i s = length (particles s) - 1
                then pso_i s' = 0 \<and> advances s' = advances s + 1
                else pso_i s' = pso_i s + 1 \<and> advances s' = advances s)"
proof -
  have i: "pso_i s < length (particles s)" using assms by (simp add: still_def)
  obtain s' where s': "notify_evaluation val s = Inr s'" "still s'"
      "map p_x (particles s') = map p_x (particles s)"
    using notify_still[OF assms] by blast
  have len: "length (particles s') = length (particles s)"
    using s'(3) by (metis length_map)
  show ?thesis
    using s' len record_particles[OF i, of val]
    by (auto simp add: notify_still_eq[OF assms] Let_def)
qed

lemma run_cursor:
  "still s \<Longrightarrow> pso_i s + length vals \<le> length (particles s) \<Longrightarrow>
   \<exists>s'. run (map Notify vals) s = Inr s'
      \<and> (if pso_i s + length vals = length (particles s)
          then pso_i s' = 0 \<and> advances s' = advances s + 1
          else pso_i s' = pso_i s + length vals \<and> advances s' = advances s)"
proof (induction vals arbitrary: s)
  case Nil
  then show ?case by (simp add: still_def)
next
  case (Cons val vals)
  obtain s1 where s1: "notify_evaluation val s = Inr s1" "still s1"
      "length (particles s1) = length (particles s)"
      "if pso_i s = length (particles s) - 1
       then pso_i s1 = 0 \<and> advances s1 = advances s + 1
       else pso_i s1 = pso_i s + 1 \<and> advances s1 = advances s"
    using notify_cursor[OF Cons.prems(1)] by blast
  show ?case
  proof (cases "pso_i s = length (particles s) - 1")
    case True
    have "pso_i s < length (particles s)" using Cons.prems(1) by (simp add: still_def)
    moreover have "pso_i s + Suc (length vals) \<le> length (particles s)"
      using Cons.prems(2) by simp
    ultimately have "length vals = 0" using True by arith
    then have "vals = []" by simp
    then show ?thesis using True s1 Cons.prems by (simp add: still_def)
  next
    case False
    then have "pso_i s1 + length vals \<le> length (particles s1)"
      using s1 Cons.prems by simp
    from Cons.IH[OF s1(2) this] show ?thesis
      using False s1 by (auto split: if_splits)
  qed
qed

text \<open>
  C6. From a freshly constructed coordinator with \<open>num_particles > 0\<close>, after exactly
  \<open>num_particles\<close> calls of \<^verbatim>\<open>notify_evaluation\<close> the cursor is \<open>0\<close> again
  and \<^verbatim>\<open>advance_generation\<close> has been called exactly once; after fewer calls
  the cursor is the number of calls made and no advance has happened.
\<close>

theorem round_cycling:
  assumes "0 < num_particles hp" and "length vals \<le> nat (num_particles hp)"
  shows "\<exists>s. run (map Notify vals) (ParticleSwarmOptimization_init hp n sh) = Inr s
     \<and> (if length vals = nat (num_particles hp)
         then pso_i s = 0 \<and> advances s = 1
         else pso_i s = length vals \<and> advances s = 0)"
proof -
  let ?s0 = "ParticleSwarmOptimization_init hp n sh"
  have f: "pso_i ?s0 = 0" "advances ?s0 = 0" "length (particles ?s0) = nat (num_particles hp)"
    by (simp_all add: ParticleSwarmOptimization_init_def)
  show ?thesis
    using run_cursor[OF still_init[OF assms(1), of n sh], of vals] assms(2)
    unfolding f by auto
qed

theorem round_cycling_witness:
  "(\<exists>s. run (map Notify [Val 5, Val 7]) swarm2 = Inr s \<and> pso_i s = 0 \<and> advances s = 1)
   \<and> (\<exists>s. run (map Notify [Val 5]) swarm2 = Inr s \<and> pso_i s = 1 \<and> advances s = 0)"
  using round_cycling [of "params 2" "[Val 5, Val 7]" 2 "nth [[1, 2], [2, 1]]"]
    round_cycling [of "params 2" "[Val 5]" 2 "nth [[1, 2], [2, 1]]"]
  by (simp add: swarm2_def params_def)

subsection \<open>The first evaluation\<close>

text \<open>
  C7 as stated: the first call, with a finite value, also sets the global best. With two
  particles it does not: the global best is still \<^verbatim>\<open>None\<close> and
  \<^verbatim>\<open>inf\<close> after the call.
\<close>

theorem first_evaluation_global_unset:
  "map_sum id best_global (notify_evaluation (Val 5) swarm2) = Inr None
   \<and> map_sum id best_global_value (notify_evaluation (Val 5) swarm2) = Inr Infty"
  by (simp add: run_eval)

text \<open>
  C7, amended. The first call of \<^verbatim>\<open>notify_evaluation\<close> on a freshly
  constructed coordinator (\<open>num_particles > 0\<close>), with a finite value, sets the first
  particle's personal best and the iteration best to that particle's position and the
  value. The global best is committed only by the call that ends a round: it is set to
  the same position and value when there is one particle, and is still
  \<^verbatim>\<open>None\<close> and \<^verbatim>\<open>inf\<close> after the call otherwise.
\<close>

theorem first_evaluation:
  assumes "0 < num_particles hp"
  shows "\<exists>s. notify_evaluation (Val k) (ParticleSwarmOptimization_init hp n sh) = Inr s
     \<and> p_best (particles s ! 0) = sh 0 \<and> p_best_value (particles s ! 0) = Val k
     \<and> p_x (particles s ! 0) = sh 0
     \<and> best_iteration s = Some (sh 0) \<and> best_iteration_value s = Val k
     \<and> (if num_particles hp = 1
         then best_global s = Some (sh 0) \<and> best_global_value s = Val k
         else best_global s = None \<and> best_global_value s = Infty)"
proof -
  let ?s0 = "ParticleSwarmOptimization_init hp n sh"
  have "[0..<nat (num_particles hp)] = 0 # [1..<nat (num_particles hp)]"
    using assms by (simp add: upt_conv_Cons)
  then have p0: "particles ?s0 ! 0 = Particle_init (sh 0)"
    by (simp add: ParticleSwarmOptimization_init_def)
  have f: "pso_i ?s0 = 0" "length (particles ?s0) = nat (num_particles hp)"
      "best_iteration_value ?s0 = Infty" "best_global_value ?s0 = Infty"
      "best_global ?s0 = None"
    by (simp_all add: ParticleSwarmOptimization_init_def)
  have len: "0 < length (particles ?s0)" using f assms by simp
  have one: "(0 = nat (num_particles hp) - 1) = (num_particles hp = 1)"
    using assms by auto
  have r: "best_iteration (record_evaluation (Val k) ?s0) = Some (sh 0)"
      "best_iteration_value (record_evaluation (Val k) ?s0) = Val k"
      "best_global (record_evaluation (Val k) ?s0) = None"
      "best_global_value (record_evaluation (Val k) ?s0) = Infty"
      "particles (record_evaluation (Val k) ?s0) ! 0
         = \<lparr>p_x = sh 0, p_v = [], p_best = sh 0, p_best_value = Val k\<rparr>"
    using len by (simp_all add: record_evaluation_def Let_def f p0 Particle_init_def
        PermutationList_init_def)
  show ?thesis
    unfolding notify_still_eq[OF still_init[OF assms]]
    using assms by (auto simp add: f one r Let_def)
qed

theorem first_evaluation_witness:
  "(\<exists>s. notify_evaluation (Val 5) swarm2 = Inr s
      \<and> p_best (particles s ! 0) = [1, 2] \<and> p_best_value (particles s ! 0) = Val 5
      \<and> best_iteration s = Some [1, 2] \<and> best_iteration_value s = Val 5
      \<and> best_global s = None \<and> best_global_value s = Infty)
   \<and> (\<exists>s. notify_evaluation (Val 5) swarm1 = Inr s
      \<and> p_best (particles s ! 0) = [2, 1] \<and> p_best_value (particles s ! 0) = Val 5
      \<and> best_iteration s = Some [2, 1] \<and> best_iteration_value s = Val 5
      \<and> best_global s = Some [2, 1] \<and> best_global_value s = Val 5)"
  using first_evaluation [of "params 2" 5 2 "nth [[1, 2], [2, 1]]"]
    first_evaluation [of "params 1" 5 2 "nth [[2, 1]]"]
  by (simp add: swarm1_def swarm2_def params_def) blast

subsection \<open>The stored bests\<close>

lemma value_less_irrefl [simp]: "\<not> value_less a a"
  by (cases a) auto

lemma value_le_refl [simp]: "value_le a a"
  by (simp add: value_le_def)

lemma value_le_trans: "value_le a b \<Longrightarrow> value_le b c \<Longrightarrow> value_le a c"
  by (cases a; cases b; cases c) (auto simp add: value_le_def)

lemma value_less_le: "value_less a b \<Longrightarrow> value_le a b"
  by (cases a; cases b) (auto simp add: value_le_def)

lemma advance_particles_bests:
  "advance_particles ps = Inr ps' \<Longrightarrow>
     map p_best ps' = map p_best ps \<and> map p_best_value ps' = map p_best_value ps"
  by (induction ps arbitrary: ps') (auto split: sum.splits)

lemma advance_generation_bests:
  assumes "advance_generation s = Inr s'"
  shows "map p_best (particles s') = map p_best (particles s)"
    and "map p_best_value (particles s') = map p_best_value (particles s)"
    and "best_iteration s' = best_iteration s"
    and "best_iteration_value s' = best_iteration_value s"
    and "best_global s' = best_global s"
    and "best_global_value s' = best_global_value s"
  using assms advance_particles_bests[of "particles s"]
  by (auto simp add: advance_generation_def split: sum.splits)

lemma map_update_same: "i < length xs \<Longrightarrow> (map f xs)[i := f (xs ! i)] = map f xs"
  by (simp add: list_eq_iff_nth_eq nth_list_update)

lemma notify_bests:
  assumes "notify_evaluation val s = Inr s'"
  shows "pso_i s < length (particles s)"
    and "map p_best_value (particles s') =
           (map p_best_value (particles s))
             [pso_i s := pick val (p_best_value (particles s ! pso_i s))]"
    and "map p_best (particles s') =
           (map p_best (particles s))
             [pso_i s := (if value_less val (p_best_value (particles s ! pso_i s))
                          then p_x (particles s ! pso_i s)
                          else p_best (particles s ! pso_i s))]"
    and "best_iteration_value s' = pick val (best_iteration_value s)"
    and "best_iteration s' = (if value_less val (best_iteration_value s)
                              then Some (p_x (particles s ! pso_i s)) else best_iteration s)"
    and "best_global_value s' =
           (if pso_i s = length (particles s) - 1
               \<and> value_less (pick val (best_iteration_value s)) (best_global_value s)
            then pick val (best_iteration_value s) else best_global_value s)"
    and "best_global s' =
           (if pso_i s = length (particles s) - 1
               \<and> value_less (pick val (best_iteration_value s)) (best_global_value s)
            then best_iteration s' else best_global s)"
proof -
  show i: "pso_i s < length (particles s)"
    using assms by (auto simp add: notify_evaluation_def split: if_splits)
  let ?r = "record_evaluation val s"
  have r: "map p_best_value (particles ?r) = (map p_best_value (particles s))
             [pso_i s := pick val (p_best_value (particles s ! pso_i s))]"
     "map p_best (particles ?r) = (map p_best (particles s))
             [pso_i s := (if value_less val (p_best_value (particles s ! pso_i s))
                          then p_x (particles s ! pso_i s)
                          else p_best (particles s ! pso_i s))]"
     "best_iteration_value ?r = pick val (best_iteration_value s)"
     "best_iteration ?r = (if value_less val (best_iteration_value s)
                              then Some (p_x (particles s ! pso_i s)) else best_iteration s)"
     "best_global_value ?r = best_global_value s" "best_global ?r = best_global s"
     "pso_i ?r = pso_i s" "length (particles ?r) = length (particles s)"
    using i by (simp_all add: record_evaluation_def Let_def pick_def map_update
        map_update_same)
  have n: "notify_evaluation val s =
     (if pso_i ?r = length (particles ?r) - 1 then
             (let s3 = ?r\<lparr>pso_i := 0\<rparr>;
                  s4 = (if value_less (best_iteration_value s3) (best_global_value s3)
                        then s3\<lparr>best_global := best_iteration s3,
                                 best_global_value := best_iteration_value s3\<rparr>
                        else s3)
              in advance_generation s4)
           else Inr (?r\<lparr>pso_i := pso_i ?r + 1\<rparr>))"
    using i by (simp add: notify_evaluation_def record_evaluation_def Let_def)
  show "map p_best_value (particles s') =
           (map p_best_value (particles s))
             [pso_i s := pick val (p_best_value (particles s ! pso_i s))]"
    using assms r unfolding n
    by (auto simp add: Let_def split: if_splits dest!: advance_generation_bests(2))
  show "map p_best (particles s') =
           (map p_best (particles s))
             [pso_i s := (if value_less val (p_best_value (particles s ! pso_i s))
                          then p_x (particles s ! pso_i s)
                          else p_best (particles s ! pso_i s))]"
    using assms r unfolding n
    by (auto simp add: Let_def split: if_splits dest!: advance_generation_bests(1))
  show bi: "best_iteration_value s' = pick val (best_iteration_value s)"
    using assms r unfolding n
    by (auto simp add: Let_def split: if_splits dest!: advance_generation_bests(4))
  show bp: "best_iteration s' = (if value_less val (best_iteration_value s)
                              then Some (p_x (particles s ! pso_i s)) else best_iteration s)"
    using assms r unfolding n
    by (auto simp add: Let_def split: if_splits dest!: advance_generation_bests(3))
  show "best_global_value s' =
           (if pso_i s = length (particles s) - 1
               \<and> value_less (pick val (best_iteration_value s)) (best_global_value s)
            then pick val (best_iteration_value s) else best_global_value s)"
    using assms r unfolding n
    by (auto simp add: Let_def split: if_splits dest!: advance_generation_bests(6))
  show "best_global s' =
           (if pso_i s = length (particles s) - 1
               \<and> value_less (pick val (best_iteration_value s)) (best_global_value s)
            then best_iteration s' else best_global s)"
    unfolding bp using assms r unfolding n
    by (auto simp add: Let_def split: if_splits dest!: advance_generation_bests(5))
qed

lemma pick_le: "value_le (pick val old) old"
  by (simp add: pick_def value_less_le)

lemma notify_length:
  assumes "notify_evaluation val s = Inr s'"
  shows "length (particles s') = length (particles s)"
  using notify_bests(2)[OF assms] by (metis length_map length_list_update)

lemma notify_p_best_value:
  assumes "notify_evaluation val s = Inr s'" and "k < length (particles s)"
  shows "p_best_value (particles s' ! k) =
     (if k = pso_i s then pick val (p_best_value (particles s ! k))
      else p_best_value (particles s ! k))"
proof -
  have "p_best_value (particles s' ! k) = map p_best_value (particles s') ! k"
    using assms(2) notify_length[OF assms(1)] by simp
  also have "\<dots> = (if k = pso_i s
       then pick val (p_best_value (particles s ! pso_i s))
       else map p_best_value (particles s) ! k)"
    using assms(2) unfolding notify_bests(2)[OF assms(1)] by (simp add: nth_list_update)
  finally show ?thesis using assms(2) by (cases "k = pso_i s") simp_all
qed

lemma notify_p_best:
  assumes "notify_evaluation val s = Inr s'" and "k < length (particles s)"
  shows "p_best (particles s' ! k) =
     (if k = pso_i s \<and> value_less val (p_best_value (particles s ! k))
      then p_x (particles s ! k) else p_best (particles s ! k))"
proof -
  have "p_best (particles s' ! k) = map p_best (particles s') ! k"
    using assms(2) notify_length[OF assms(1)] by simp
  also have "\<dots> = (if k = pso_i s
       then (if value_less val (p_best_value (particles s ! pso_i s))
             then p_x (particles s ! pso_i s) else p_best (particles s ! pso_i s))
       else map p_best (particles s) ! k)"
    using assms(2) unfolding notify_bests(3)[OF assms(1)] by (simp add: nth_list_update)
  finally show ?thesis using assms(2) by (cases "k = pso_i s") simp_all
qed

lemma notify_bests_le:
  assumes "notify_evaluation val s = Inr s'"
  shows "bests_le s' s"
  unfolding bests_le_def
proof (intro conjI allI impI)
  show "value_le (best_global_value s') (best_global_value s)"
    by (simp add: notify_bests(6)[OF assms] value_less_le)
  show "value_le (best_iteration_value s') (best_iteration_value s)"
    by (simp add: notify_bests(4)[OF assms] pick_le)
  show "length (particles s') = length (particles s)"
    by (rule notify_length[OF assms])
  show "value_le (p_best_value (particles s' ! k)) (p_best_value (particles s ! k))"
    if "k < length (particles s)" for k
    by (simp add: notify_p_best_value[OF assms that] pick_le)
qed

lemma bests_le_trans: "bests_le s2 s1 \<Longrightarrow> bests_le s1 s \<Longrightarrow> bests_le s2 s"
  unfolding bests_le_def by (auto intro: value_le_trans)

lemma run_bests_le:
  "run (map Notify vals) s = Inr s' \<Longrightarrow> bests_le s' s"
proof (induction vals arbitrary: s)
  case Nil
  then show ?case by (simp add: bests_le_def)
next
  case (Cons val vals)
  then obtain s1 where s1: "notify_evaluation val s = Inr s1"
      "run (map Notify vals) s1 = Inr s'"
    by (auto split: sum.splits)
  show ?case
    using bests_le_trans[OF Cons.IH[OF s1(2)] notify_bests_le[OF s1(1)]] .
qed

text \<open>
  C5 as stated: a reported value equal to a stored best leaves that best unchanged. For
  the global best it need not: with two particles and the reports \<open>7, 5, 3\<close> the
  global best is \<open>([2,1], 5)\<close>; the next report is \<open>5\<close>, equal to it, and the call
  ends the round and commits the iteration best \<open>([1,2], 3)\<close>.
\<close>

theorem tie_with_global_overwritten:
  "map_sum id best_global (run (map Notify [Val 7, Val 5, Val 3]) swarm2) = Inr (Some [2, 1])
   \<and> map_sum id best_global_value (run (map Notify [Val 7, Val 5, Val 3]) swarm2) = Inr (Val 5)
   \<and> map_sum id best_global (run (map Notify [Val 7, Val 5, Val 3, Val 5]) swarm2)
       = Inr (Some [1, 2])
   \<and> map_sum id best_global_value (run (map Notify [Val 7, Val 5, Val 3, Val 5]) swarm2)
       = Inr (Val 3)"
  by (simp add: run_eval)

text \<open>
  C5, amended. Across any sequence of \<^verbatim>\<open>notify_evaluation\<close> calls (\<open>vals\<close> and
  then \<open>val\<close>), each particle's personal-best value, the iteration-best value and the
  global-best value never increase. In a call, a reported value equal to a particle's
  stored personal-best value leaves that particle's best position and value unchanged,
  and one equal to the stored iteration-best value leaves the iteration best unchanged.
  The global best is compared with the iteration best, not with the reported value, and
  only by the call that ends a round: a call made while the cursor is not the last index
  leaves the global best unchanged; a call that ends a round leaves it unchanged when the
  iteration-best value after the call is not strictly below it, and otherwise sets it to
  the iteration best. So a reported value equal to the global-best value leaves the
  global best unchanged when the iteration-best value before the call was not strictly
  below it.
\<close>

theorem bests_only_decrease:
  assumes "run (map Notify vals) s = Inr s1" and "notify_evaluation val s1 = Inr s2"
  shows "value_le (best_global_value s2) (best_global_value s)
     \<and> value_le (best_iteration_value s2) (best_iteration_value s)
     \<and> length (particles s2) = length (particles s)
     \<and> (\<forall>k < length (particles s).
           value_le (p_best_value (particles s2 ! k)) (p_best_value (particles s ! k)))
     \<and> (\<forall>k < length (particles s1). p_best_value (particles s1 ! k) = val \<longrightarrow>
           p_best (particles s2 ! k) = p_best (particles s1 ! k)
           \<and> p_best_value (particles s2 ! k) = val)
     \<and> (best_iteration_value s1 = val \<longrightarrow>
           best_iteration s2 = best_iteration s1 \<and> best_iteration_value s2 = val)
     \<and> (pso_i s1 \<noteq> length (particles s1) - 1 \<longrightarrow>
           best_global s2 = best_global s1 \<and> best_global_value s2 = best_global_value s1)
     \<and> (\<not> value_less (best_iteration_value s2) (best_global_value s1) \<longrightarrow>
           best_global s2 = best_global s1 \<and> best_global_value s2 = best_global_value s1)
     \<and> (pso_i s1 = length (particles s1) - 1
          \<and> value_less (best_iteration_value s2) (best_global_value s1) \<longrightarrow>
           best_global s2 = best_iteration s2
           \<and> best_global_value s2 = best_iteration_value s2)
     \<and> (best_global_value s1 = val \<and> \<not> value_less (best_iteration_value s1) val \<longrightarrow>
           best_global s2 = best_global s1 \<and> best_global_value s2 = val)"
proof -
  have "bests_le s2 s"
    using bests_le_trans[OF notify_bests_le[OF assms(2)] run_bests_le[OF assms(1)]] .
  then have mono: "value_le (best_global_value s2) (best_global_value s)
     \<and> value_le (best_iteration_value s2) (best_iteration_value s)
     \<and> length (particles s2) = length (particles s)
     \<and> (\<forall>k < length (particles s).
           value_le (p_best_value (particles s2 ! k)) (p_best_value (particles s ! k)))"
    by (simp add: bests_le_def)
  have personal: "p_best (particles s2 ! k) = p_best (particles s1 ! k)
           \<and> p_best_value (particles s2 ! k) = val"
    if "k < length (particles s1)" and "p_best_value (particles s1 ! k) = val" for k
    using that by (cases "k = pso_i s1")
      (simp_all add: notify_p_best[OF assms(2)] notify_p_best_value[OF assms(2)] pick_def)
  have iteration: "best_iteration s2 = best_iteration s1 \<and> best_iteration_value s2 = val"
    if "best_iteration_value s1 = val"
    using that by (simp add: notify_bests(4,5)[OF assms(2)] pick_def)
  have global: "best_global s2 = best_global s1
        \<and> best_global_value s2 = best_global_value s1"
    if "\<not> value_less (best_iteration_value s2) (best_global_value s1)"
    using that by (simp add: notify_bests(4,6,7)[OF assms(2)])
  have mid: "best_global s2 = best_global s1
        \<and> best_global_value s2 = best_global_value s1"
    if "pso_i s1 \<noteq> length (particles s1) - 1"
    using that by (simp add: notify_bests(6,7)[OF assms(2)])
  have commit: "best_global s2 = best_iteration s2
        \<and> best_global_value s2 = best_iteration_value s2"
    if "pso_i s1 = length (particles s1) - 1"
      and "value_less (best_iteration_value s2) (best_global_value s1)"
    using that by (simp add: notify_bests(4,6,7)[OF assms(2)])
  have tie: "best_global s2 = best_global s1 \<and> best_global_value s2 = val"
    if "best_global_value s1 = val" and "\<not> value_less (best_iteration_value s1) val"
    using that by (simp add: notify_bests(4,6,7)[OF assms(2)] pick_def)
  show ?thesis
    using mono personal iteration mid global commit tie by blast
qed

theorem bests_only_decrease_witness:
  "run (map Notify [Val 3]) swarm1 = Inr (swarm1_evaluated 1)
   \<and> notify_evaluation (Val 3) (swarm1_evaluated 1) = Inr (swarm1_evaluated 2)
   \<and> value_le (best_global_value (swarm1_evaluated 2)) (best_global_value swarm1)
   \<and> value_le (best_iteration_value (swarm1_evaluated 2)) (best_iteration_value swarm1)
   \<and> p_best (particles (swarm1_evaluated 2) ! 0) = p_best (particles (swarm1_evaluated 1) ! 0)
   \<and> best_iteration (swarm1_evaluated 2) = best_iteration (swarm1_evaluated 1)
   \<and> best_global (swarm1_evaluated 2) = best_global (swarm1_evaluated 1)
   \<and> run (map Notify [Val 7, Val 5]) swarm2 = Inr swarm2_round1
   \<and> notify_evaluation (Val 3) swarm2_round1 = Inr swarm2_round2_first
   \<and> pso_i swarm2_round1 \<noteq> length (particles swarm2_round1) - 1
   \<and> value_less (best_iteration_value swarm2_round2_first) (best_global_value swarm2_round1)
   \<and> best_global swarm2_round2_first = best_global swarm2_round1
   \<and> best_global_value swarm2_round2_first = best_global_value swarm2_round1"
proof -
  have h1: "run (map Notify [Val 3]) swarm1 = Inr (swarm1_evaluated 1)"
    by (simp add: run_eval swarm1_evaluated_def)
  have h2: "notify_evaluation (Val 3) (swarm1_evaluated 1) = Inr (swarm1_evaluated 2)"
    by (simp add: run_eval swarm1_evaluated_def)
  have g1: "run (map Notify [Val 7, Val 5]) swarm2 = Inr swarm2_round1"
    by (simp add: run_eval swarm2_round1_def)
  have g2: "notify_evaluation (Val 3) swarm2_round1 = Inr swarm2_round2_first"
    by (simp add: run_eval swarm2_round1_def swarm2_round2_first_def)
  have mid: "pso_i swarm2_round1 \<noteq> length (particles swarm2_round1) - 1"
    by (simp add: swarm2_round1_def)
  have below: "value_less (best_iteration_value swarm2_round2_first)
      (best_global_value swarm2_round1)"
    by (simp add: swarm2_round1_def swarm2_round2_first_def)
  show ?thesis
    using h1 h2 g1 g2 mid below bests_only_decrease [OF h1 h2]
      bests_only_decrease [OF g1 g2]
    by (simp add: swarm1_evaluated_def)
qed

subsection \<open>Where the code departs from its description\<close>

text \<open>
  C4. The claim: the call that ends a round resets \<^verbatim>\<open>best_iteration_value\<close>,
  so that in the next round it reflects only that round's reports. The code (whose
  comment reads ``best array of params of EACH iteration'') never writes
  \<^verbatim>\<open>inf\<close> back: with one particle and the reports \<open>3\<close> then \<open>5\<close>, two rounds
  have ended and the iteration-best value is \<open>3\<close>, a report of the first round.
\<close>

theorem iteration_best_not_reset:
  "map_sum id best_iteration_value (run [Notify (Val 3), Notify (Val 5)] swarm1) = Inr (Val 3)
   \<and> map_sum id advances (run [Notify (Val 3), Notify (Val 5)] swarm1) = Inr 2"
  by (simp add: run_eval)

text \<open>
  C3. The claim: when a round ends, every velocity is recomputed from the three scaled
  differences and the position moves by it. The code (under a \<^verbatim>\<open>TODO\<close>) only
  does \<^verbatim>\<open>particle.x = particle.x + particle.v\<close>: with the two particles
  \<open>[1,2]\<close> and \<open>[2,1]\<close> and the reports \<open>0\<close> and \<open>1\<close>, the round has ended, the
  global best is \<open>[1,2]\<close>, and the second particle still has the empty velocity and
  the position \<open>[2,1]\<close>. The difference of the global best and that position
  is the transposition \<open>(0,1)\<close>; scaled by \<open>phig * rg\<close> with \<open>phig = 0.9\<close> and a
  draw \<open>rg = 0.75\<close> it is kept, and applying it would give \<open>[1,2]\<close>.
\<close>

theorem advance_ignores_bests:
  "map_sum id (map p_v \<circ> particles) (run (map Notify [Val 0, Val 1]) swarm2) = Inr [[], []]
   \<and> map_sum id (map p_x \<circ> particles) (run (map Notify [Val 0, Val 1]) swarm2)
       = Inr [[1, 2], [2, 1]]
   \<and> map_sum id best_global (run (map Notify [Val 0, Val 1]) swarm2) = Inr (Some [1, 2])
   \<and> map_sum id advances (run (map Notify [Val 0, Val 1]) swarm2) = Inr 1
   \<and> Sequence_sub [1, 2] [2, 1] (sconst 0) = Some (Inr [(0, 1)])
   \<and> PermutationList_rmul [(0, 1)] (FloatFactor (pso_phig swarm2 * (3 / 4))) = Inr [(0, 1)]
   \<and> Sequence_add [2, 1] [(0, 1)] = Inr [1, 2]"
  by (simp add: run_eval Sequence_sub_def sub_loop.simps sub_body_def
      PermutationList_add_def keys_def slice_to_def py_round_def)

end
